theory Spec2Isabelle
  imports Main "HOL-Library.Word"
begin

section \<open>The store: nodes, pointers and link slots\<close>

text \<open>
  \<^verbatim>\<open>juce_LinkedListPointer.h\<close> manipulates intrusive singly-linked lists. A node of type
  \<^verbatim>\<open>ObjectType\<close> embeds a member \<^verbatim>\<open>LinkedListPointer<ObjectType> nextListItem\<close>, and a
  \<^verbatim>\<open>LinkedListPointer\<close> itself holds the single field \<^verbatim>\<open>ObjectType* item\<close>.

  A node is identified by its address. An \<^verbatim>\<open>ObjectType*\<close> is \<open>None\<close> (the null pointer) or
  \<open>Some a\<close>. A \<^verbatim>\<open>LinkedListPointer*\<close> (the \<^verbatim>\<open>this\<close> of every method) is the address of a
  link slot: either a \<^verbatim>\<open>LinkedListPointer\<close> object living outside every node (\<open>Root r\<close>),
  or the \<^verbatim>\<open>nextListItem\<close> member of the node at address \<open>a\<close> (\<open>Link a\<close>). Methods mutate
  slots in place, so the store is passed explicitly and aliasing between the slot of the
  call and the link fields of the nodes is visible.
\<close>

type_synonym addr = nat

type_synonym ptr = "addr option"

datatype slot = Root nat | Link addr

record 'v store =
  roots :: "nat \<Rightarrow> ptr"
  links :: "addr \<Rightarrow> ptr"
  payload :: "addr \<Rightarrow> 'v"
  nextFree :: addr

text \<open>Reading and writing the \<^verbatim>\<open>item\<close> field of the \<^verbatim>\<open>LinkedListPointer\<close> at a slot.\<close>

fun item_of :: "'v store \<Rightarrow> slot \<Rightarrow> ptr" where
  "item_of s (Root r) = roots s r"
| "item_of s (Link a) = links s a"

fun set_item :: "slot \<Rightarrow> ptr \<Rightarrow> 'v store \<Rightarrow> 'v store" where
  "set_item (Root r) p s = s\<lparr>roots := (roots s)(r := p)\<rparr>"
| "set_item (Link a) p s = s\<lparr>links := (links s)(a := p)\<rparr>"

text \<open>
  Outcomes other than a normal return. \<open>PrecondViolation\<close> is a failed \<^verbatim>\<open>jassert\<close>;
  \<open>NullDereference\<close> is a member access through a null \<^verbatim>\<open>ObjectType*\<close>, which no
  assertion guards.
\<close>

datatype fault = PrecondViolation | NullDereference

text \<open>
  Modelled from the spec: the \<^verbatim>\<open>jassert\<close> macro is declared elsewhere in the library and
  is missing here. The specification says a violated assertion signals a PrecondViolation at
  the point of violation; a satisfied one lets the code proceed.
\<close>

definition jassert :: "bool \<Rightarrow> (fault + 'a) \<Rightarrow> (fault + 'a)" where
  "jassert c k = (if c then k else Inl PrecondViolation)"

text \<open>
  Modelled from the spec: \<^verbatim>\<open>new ObjectType (*i)\<close> runs the copy constructor of the node
  type, which is a template argument and is missing here. The specification requires a
  duplication operation giving a node of equal value, and a link field that is empty by
  default: the copy is a freshly allocated node with the payload of \<open>i\<close> and an empty link.
\<close>

definition new_copy :: "addr \<Rightarrow> 'v store \<Rightarrow> addr \<times> 'v store" where
  "new_copy i s =
     (let n = nextFree s in
      (n, s\<lparr>links := (links s)(n := None),
            payload := (payload s)(n := payload s i),
            nextFree := Suc n\<rparr>))"


section \<open>The methods of LinkedListPointer\<close>

text \<open>\<^verbatim>\<open>ObjectType* get() const\<close>\<close>

definition get :: "'v store \<Rightarrow> slot \<Rightarrow> ptr" where
  "get s l = item_of s l"

text \<open>
  \<^verbatim>\<open>LinkedListPointer& getLast()\<close>: the loop follows the links while the slot is occupied.
  On a cyclic chain it never returns, which is the value \<open>None\<close>.
\<close>

partial_function (option) getLast :: "'v store \<Rightarrow> slot \<Rightarrow> slot option" where
  "getLast s l =
     (case item_of s l of
        None \<Rightarrow> Some l
      | Some a \<Rightarrow> getLast s (Link a))"

declare getLast.simps [code]

text \<open>
  \<^verbatim>\<open>int size() const\<close>: \<open>size_loop\<close> is the \<^verbatim>\<open>for\<close> loop over \<^verbatim>\<open>i\<close> with the counter
  \<^verbatim>\<open>total\<close> (here \<open>total'\<close>), a 32-bit \<^verbatim>\<open>int\<close>.
\<close>

partial_function (option) size_loop :: "'v store \<Rightarrow> ptr \<Rightarrow> 32 word \<Rightarrow> 32 word option" where
  "size_loop s i total' =
     (case i of
        None \<Rightarrow> Some total'
      | Some a \<Rightarrow> size_loop s (links s a) (total' + 1))"

declare size_loop.simps [code]

definition size_of :: "'v store \<Rightarrow> slot \<Rightarrow> 32 word option" where
  "size_of s l = size_loop s (item_of s l) 0"

text \<open>
  \<^verbatim>\<open>LinkedListPointer& operator[] (int index)\<close>: the condition
  \<^verbatim>\<open>--index >= 0 && l->item != 0\<close> decrements the 32-bit \<^verbatim>\<open>index\<close> first (wrapping
  around at the least value), then compares it as a signed number, and only then looks at
  the slot. The counter bounds the loop, so it returns on every store.
\<close>

function op_subscript :: "'v store \<Rightarrow> slot \<Rightarrow> 32 word \<Rightarrow> slot" where
  "op_subscript s l index =
     (let index' = index - 1 in
      if 0 \<le> sint index' then
        (case item_of s l of
           None \<Rightarrow> l
         | Some a \<Rightarrow> op_subscript s (Link a) index')
      else l)"
  by pat_completeness auto
termination
proof (relation "measure (\<lambda>(s, l, index). nat (sint (index - 1) + 2 ^ 31))")
  show "wf (measure (\<lambda>(s :: 'v store, l :: slot, index :: 32 word).
          nat (sint (index - 1) + 2 ^ 31)))"
    by simp
next
  fix s :: "'v store" and l :: slot and index i :: "32 word" and a :: addr
  assume i: "i = index - 1" and nn: "0 \<le> sint i"
  have "sint (i - 1) = sint i - 1"
    using nn sint_lt [of i] by (simp add: sint_word_ariths signed_take_bit_int_eq_self)
  then show "((s, Link a, i), (s, l, index))
      \<in> measure (\<lambda>(s, l, index). nat (sint (index - 1) + 2 ^ 31))"
    using nn i by simp
qed

text \<open>\<^verbatim>\<open>const LinkedListPointer& operator[] (int index) const\<close>: the same body.\<close>

function op_subscript_const :: "'v store \<Rightarrow> slot \<Rightarrow> 32 word \<Rightarrow> slot" where
  "op_subscript_const s l index =
     (let index' = index - 1 in
      if 0 \<le> sint index' then
        (case item_of s l of
           None \<Rightarrow> l
         | Some a \<Rightarrow> op_subscript_const s (Link a) index')
      else l)"
  by pat_completeness auto
termination
proof (relation "measure (\<lambda>(s, l, index). nat (sint (index - 1) + 2 ^ 31))")
  show "wf (measure (\<lambda>(s :: 'v store, l :: slot, index :: 32 word).
          nat (sint (index - 1) + 2 ^ 31)))"
    by simp
next
  fix s :: "'v store" and l :: slot and index i :: "32 word" and a :: addr
  assume i: "i = index - 1" and nn: "0 \<le> sint i"
  have "sint (i - 1) = sint i - 1"
    using nn sint_lt [of i] by (simp add: sint_word_ariths signed_take_bit_int_eq_self)
  then show "((s, Link a, i), (s, l, index))
      \<in> measure (\<lambda>(s, l, index). nat (sint (index - 1) + 2 ^ 31))"
    using nn i by simp
qed

text \<open>
  \<^verbatim>\<open>bool contains (const ObjectType* itemToLookFor) const\<close>: comparison is by address.
\<close>

partial_function (option) contains_loop :: "'v store \<Rightarrow> ptr \<Rightarrow> ptr \<Rightarrow> bool option" where
  "contains_loop s i itemToLookFor =
     (case i of
        None \<Rightarrow> Some False
      | Some a \<Rightarrow>
          if itemToLookFor = Some a then Some True
          else contains_loop s (links s a) itemToLookFor)"

declare contains_loop.simps [code]

definition contains :: "'v store \<Rightarrow> slot \<Rightarrow> ptr \<Rightarrow> bool option" where
  "contains s l itemToLookFor = contains_loop s (item_of s l) itemToLookFor"

text \<open>
  \<^verbatim>\<open>void insertNext (ObjectType* newItem)\<close>: two assertions, then
  \<^verbatim>\<open>newItem->nextListItem = item; item = newItem;\<close> in this order.
\<close>

definition insertNext :: "slot \<Rightarrow> ptr \<Rightarrow> 'v store \<Rightarrow> fault + 'v store" where
  "insertNext l newItem s =
     jassert (newItem \<noteq> None)
       (case newItem of
          None \<Rightarrow> Inl NullDereference
        | Some n \<Rightarrow>
            jassert (links s n = None)
              (let s1 = set_item (Link n) (item_of s l) s in
               Inr (set_item l (Some n) s1)))"

text \<open>
  \<^verbatim>\<open>ObjectType* replaceNext (ObjectType* newItem)\<close>: the two assertions are about
  \<^verbatim>\<open>newItem\<close> only. The body then runs
  \<^verbatim>\<open>oldItem = item; item = newItem; item->nextListItem = oldItem->nextListItem;
  oldItem->nextListItem = 0; return oldItem;\<close>
  where \<^verbatim>\<open>oldItem->nextListItem\<close> reads through \<^verbatim>\<open>oldItem\<close> whatever it is.
\<close>

definition replaceNext :: "slot \<Rightarrow> ptr \<Rightarrow> 'v store \<Rightarrow> fault + (ptr \<times> 'v store)" where
  "replaceNext l newItem s =
     jassert (newItem \<noteq> None)
       (case newItem of
          None \<Rightarrow> Inl NullDereference
        | Some n \<Rightarrow>
            jassert (links s n = None)
              (let oldItem = item_of s l;
                   s1 = set_item l (Some n) s
               in case item_of s1 l of
                    None \<Rightarrow> Inl NullDereference
                  | Some i \<Rightarrow>
                      (case oldItem of
                         None \<Rightarrow> Inl NullDereference
                       | Some oldA \<Rightarrow>
                           (let s2 = set_item (Link i) (links s1 oldA) s1;
                                s3 = set_item (Link oldA) None s2
                            in Inr (oldItem, s3)))))"

text \<open>\<^verbatim>\<open>void append (ObjectType* newItem)\<close>: \<^verbatim>\<open>getLast().item = newItem\<close>, no assertion.\<close>

definition append_item :: "slot \<Rightarrow> ptr \<Rightarrow> 'v store \<Rightarrow> 'v store option" where
  "append_item l newItem s =
     (case getLast s l of
        None \<Rightarrow> None
      | Some e \<Rightarrow> Some (set_item e newItem s))"

text \<open>
  \<^verbatim>\<open>void addCopyOfList (const LinkedListPointer& other)\<close>: \<^verbatim>\<open>insertPoint\<close> starts at
  \<^verbatim>\<open>this\<close>; for each node \<^verbatim>\<open>i\<close> of the other list a copy is passed to
  \<^verbatim>\<open>insertPoint->insertNext\<close>, and \<^verbatim>\<open>insertPoint\<close> moves to the link field of the node it
  now references. The next \<^verbatim>\<open>i\<close> is read from the store as the body left it.
\<close>

partial_function (option) addCopyOfList_loop ::
    "slot \<Rightarrow> ptr \<Rightarrow> 'v store \<Rightarrow> (fault + 'v store) option" where
  "addCopyOfList_loop insertPoint i s =
     (case i of
        None \<Rightarrow> Some (Inr s)
      | Some a \<Rightarrow>
          (case new_copy a s of
             (n, s1) \<Rightarrow>
               (case insertNext insertPoint (Some n) s1 of
                  Inl e \<Rightarrow> Some (Inl e)
                | Inr s2 \<Rightarrow>
                    (case item_of s2 insertPoint of
                       None \<Rightarrow> Some (Inl NullDereference)
                     | Some m \<Rightarrow> addCopyOfList_loop (Link m) (links s2 a) s2))))"

declare addCopyOfList_loop.simps [code]

definition addCopyOfList :: "slot \<Rightarrow> slot \<Rightarrow> 'v store \<Rightarrow> (fault + 'v store) option" where
  "addCopyOfList l other s = addCopyOfList_loop l (item_of s other) s"

text \<open>
  \<^verbatim>\<open>ObjectType* removeNext()\<close>: after the early return for an empty slot the body is
  \<^verbatim>\<open>oldItem = item; oldItem->nextListItem = 0; item = item->nextListItem; return oldItem;\<close>
  in this order: the link field of the old item is cleared first, and the new value of
  \<^verbatim>\<open>item\<close> is read from that field afterwards.
\<close>

definition removeNext :: "slot \<Rightarrow> 'v store \<Rightarrow> fault + (ptr \<times> 'v store)" where
  "removeNext l s =
     (case item_of s l of
        None \<Rightarrow> Inr (None, s)
      | Some oldItem \<Rightarrow>
          (let s1 = set_item (Link oldItem) None s in
           case item_of s1 l of
             None \<Rightarrow> Inl NullDereference
           | Some i \<Rightarrow> Inr (Some oldItem, set_item l (links s1 i) s1)))"

text \<open>
  \<^verbatim>\<open>LinkedListPointer* findPointerTo (ObjectType* itemToLookFor)\<close>: the inner option is
  the returned pointer, null when the item is not found.
\<close>

partial_function (option) findPointerTo ::
    "'v store \<Rightarrow> slot \<Rightarrow> ptr \<Rightarrow> slot option option" where
  "findPointerTo s l itemToLookFor =
     (case item_of s l of
        None \<Rightarrow> Some None
      | Some a \<Rightarrow>
          if Some a = itemToLookFor then Some (Some l)
          else findPointerTo s (Link a) itemToLookFor)"

declare findPointerTo.simps [code]

text \<open>\<^verbatim>\<open>void remove (ObjectType* item)\<close>\<close>

definition remove :: "slot \<Rightarrow> ptr \<Rightarrow> 'v store \<Rightarrow> (fault + 'v store) option" where
  "remove l item s =
     (case findPointerTo s l item of
        None \<Rightarrow> None
      | Some None \<Rightarrow> Some (Inr s)
      | Some (Some l') \<Rightarrow>
          (case removeNext l' s of
             Inl e \<Rightarrow> Some (Inl e)
           | Inr (r, s') \<Rightarrow> Some (Inr s')))"


section \<open>The nested class Appender\<close>

record appender =
  endOfList :: slot

text \<open>
  The constructor stores the address of the slot it is given and asserts that the slot is
  empty.
\<close>

definition Appender :: "slot \<Rightarrow> 'v store \<Rightarrow> fault + appender" where
  "Appender endOfListPointer s =
     jassert (item_of s endOfListPointer = None)
       (Inr \<lparr>endOfList = endOfListPointer\<rparr>)"

text \<open>
  \<^verbatim>\<open>void append (ObjectType* newItem)\<close>:
  \<^verbatim>\<open>*endOfList = newItem; endOfList = &(newItem->nextListItem);\<close>, no assertion.
  With a null \<^verbatim>\<open>newItem\<close> the second statement forms the address of a member of the
  null object, which the language leaves undefined and for which \<open>slot\<close> has no value:
  the model ends that call with \<open>NullDereference\<close>, after the write of the first
  statement, and says nothing about the store it leaves. Every statement below applies
  the method to a node.
\<close>

definition Appender_append :: "appender \<Rightarrow> ptr \<Rightarrow> 'v store \<Rightarrow> fault + (appender \<times> 'v store)" where
  "Appender_append ap newItem s =
     (let s1 = set_item (endOfList ap) newItem s in
      case newItem of
        None \<Rightarrow> Inl NullDereference
      | Some n \<Rightarrow> Inr (ap\<lparr>endOfList := Link n\<rparr>, s1))"


section \<open>Chains and call sequences\<close>

text \<open>
  \<open>chain s p as\<close>: following the link fields from the pointer \<open>p\<close> visits exactly the
  nodes \<open>as\<close>, in this order, and then reaches the null pointer.
\<close>

fun chain :: "'v store \<Rightarrow> ptr \<Rightarrow> addr list \<Rightarrow> bool" where
  "chain s p [] = (p = None)"
| "chain s p (a # as) = (p = Some a \<and> chain s (links s a) as)"

text \<open>
  The slot that references position \<open>k\<close> of the chain \<open>as\<close> hanging off the slot \<open>l\<close>:
  \<open>l\<close> itself for position 0, the link field of the node before that position otherwise.
  \<open>last_slot\<close> is the slot after the last node.
\<close>

definition slot_at :: "slot \<Rightarrow> addr list \<Rightarrow> nat \<Rightarrow> slot" where
  "slot_at l as k = (if k = 0 then l else Link (as ! (k - 1)))"

definition last_slot :: "slot \<Rightarrow> addr list \<Rightarrow> slot" where
  "last_slot l as = slot_at l as (length as)"

text \<open>Appending the nodes \<open>ns\<close> one after the other through one Appender.\<close>

fun Appender_append_all ::
    "appender \<Rightarrow> addr list \<Rightarrow> 'v store \<Rightarrow> fault + (appender \<times> 'v store)" where
  "Appender_append_all ap [] s = Inr (ap, s)"
| "Appender_append_all ap (n # ns) s =
     (case Appender_append ap (Some n) s of
        Inl e \<Rightarrow> Inl e
      | Inr (ap', s') \<Rightarrow> Appender_append_all ap' ns s')"

text \<open>Appending the nodes \<open>ns\<close> by sequential calls of \<^verbatim>\<open>append\<close> on the same slot.\<close>

fun append_all :: "slot \<Rightarrow> addr list \<Rightarrow> 'v store \<Rightarrow> 'v store option" where
  "append_all l [] s = Some s"
| "append_all l (n # ns) s =
     (case append_item l (Some n) s of
        None \<Rightarrow> None
      | Some s' \<Rightarrow> append_all l ns s')"

text \<open>The store with the list 1, 2, 3 hanging off the root slot 0, and a detached node 7.\<close>

definition list123 :: "nat store" where
  "list123 =
     \<lparr>roots = (\<lambda>r. None)(0 := Some 1),
      links = (\<lambda>a. None)(1 := Some 2, 2 := Some 3),
      payload = (\<lambda>a. 10 * a),
      nextFree = 8\<rparr>"

text \<open>The store with the list 1, 2 hanging off the root slot 0 and the list 5 off the root slot 1.\<close>

definition two_lists :: "nat store" where
  "two_lists =
     \<lparr>roots = (\<lambda>r. None)(0 := Some 1, 1 := Some 5),
      links = (\<lambda>a. None)(1 := Some 2),
      payload = (\<lambda>a. 10 * a),
      nextFree = 8\<rparr>"


section \<open>Facts about chains and the loops over them\<close>

declare op_subscript.simps [simp del] op_subscript_const.simps [simp del]

lemma chain_roots_upd [simp]: "chain (s\<lparr>roots := r\<rparr>) p as = chain s p as"
  by (induction as arbitrary: p) auto

lemma chain_links_upd: "a \<notin> set as \<Longrightarrow> chain (s\<lparr>links := (links s)(a := q)\<rparr>) p as = chain s p as"
  by (induction as arbitrary: p) auto

lemma chain_set_item:
  "(\<And>a. l = Link a \<Longrightarrow> a \<notin> set as) \<Longrightarrow> chain (set_item l q s) p as = chain s p as"
  by (cases l) (simp_all add: chain_links_upd)

lemma chain_unique: "chain s p as \<Longrightarrow> chain s p bs \<Longrightarrow> as = bs"
proof (induction as arbitrary: p bs)
  case Nil
  then show ?case by (cases bs) auto
next
  case (Cons a as)
  then show ?case by (cases bs) auto
qed

lemma chain_suffix: "chain s p (xs @ a # ys) \<Longrightarrow> chain s (Some a) (a # ys)"
  by (induction xs arbitrary: p) auto

lemma chain_not_in_tail:
  assumes "chain s (links s a) as"
  shows "a \<notin> set as"
proof
  assume "a \<in> set as"
  then obtain xs ys where split: "as = xs @ a # ys"
    by (auto simp: in_set_conv_decomp)
  with assms have "chain s (Some a) (a # ys)"
    using chain_suffix by fastforce
  moreover from assms have "chain s (Some a) (a # as)" by simp
  ultimately have "a # ys = a # as" by (rule chain_unique)
  with split show False by simp
qed

lemma chain_distinct: "chain s p as \<Longrightarrow> distinct as"
  by (induction as arbitrary: p) (auto dest: chain_not_in_tail)

lemma slot_outside_chain:
  assumes "chain s (item_of s l) as" and "x \<in> set as"
  shows "l \<noteq> Link x"
proof
  assume "l = Link x"
  with assms(1) have "chain s (links s x) as" by simp
  then have "x \<notin> set as" by (rule chain_not_in_tail)
  with assms(2) show False by simp
qed

lemma item_of_set_item_same [simp]: "item_of (set_item l q s) l = q"
  by (cases l) simp_all

lemma item_of_set_item_other: "l' \<noteq> l \<Longrightarrow> item_of (set_item l q s) l' = item_of s l'"
  by (cases l; cases l') simp_all

lemma links_set_item: "l \<noteq> Link a \<Longrightarrow> links (set_item l q s) a = links s a"
  by (cases l) simp_all

lemma slot_at_0 [simp]: "slot_at l as 0 = l"
  by (simp add: slot_at_def)

lemma slot_at_Suc_Cons: "slot_at l (a # as) (Suc k) = slot_at (Link a) as k"
  by (cases k) (simp_all add: slot_at_def)

lemma last_slot_Nil [simp]: "last_slot l [] = l"
  by (simp add: last_slot_def)

lemma last_slot_Cons [simp]: "last_slot l (a # as) = last_slot (Link a) as"
  by (simp add: last_slot_def slot_at_Suc_Cons)

lemma getLast_chain: "chain s (item_of s l) as \<Longrightarrow> getLast s l = Some (last_slot l as)"
proof (induction as arbitrary: l)
  case Nil
  then show ?case by (subst getLast.simps) simp
next
  case (Cons a as)
  then have "getLast s (Link a) = Some (last_slot (Link a) as)" by simp
  with Cons.prems show ?case by (subst getLast.simps) simp
qed

lemma size_loop_chain: "chain s p as \<Longrightarrow> size_loop s p t = Some (t + of_nat (length as))"
proof (induction as arbitrary: p t)
  case Nil
  then show ?case by (subst size_loop.simps) simp
next
  case (Cons a as)
  then have "size_loop s (links s a) (t + 1) = Some (t + 1 + of_nat (length as))" by simp
  with Cons.prems show ?case by (subst size_loop.simps) (simp add: algebra_simps)
qed

lemma contains_loop_chain:
  "chain s p as \<Longrightarrow> contains_loop s p x = Some (\<exists>a. a \<in> set as \<and> x = Some a)"
proof (induction as arbitrary: p)
  case Nil
  then show ?case by (subst contains_loop.simps) simp
next
  case (Cons a as)
  then have "contains_loop s (links s a) x = Some (\<exists>b. b \<in> set as \<and> x = Some b)" by simp
  with Cons.prems show ?case by (subst contains_loop.simps) auto
qed

lemma findPointerTo_absent:
  "chain s (item_of s l) as \<Longrightarrow> (\<And>a. a \<in> set as \<Longrightarrow> x \<noteq> Some a) \<Longrightarrow> findPointerTo s l x = Some None"
proof (induction as arbitrary: l)
  case Nil
  then show ?case by (subst findPointerTo.simps) simp
next
  case (Cons a as)
  then have "findPointerTo s (Link a) x = Some None" by simp
  moreover have "x \<noteq> Some a" using Cons.prems(2) by simp
  ultimately show ?case using Cons.prems(1) by (subst findPointerTo.simps) auto
qed

lemma sint_dec:
  fixes i :: "32 word"
  assumes "- (2 ^ 31) < sint i"
  shows "sint (i - 1) = sint i - 1"
  using assms sint_lt [of i] by (simp add: sint_word_ariths signed_take_bit_int_eq_self)

lemma op_subscript_chain:
  "chain s (item_of s l) as \<Longrightarrow> 0 \<le> sint index \<Longrightarrow>
     op_subscript s l index = slot_at l as (min (nat (sint index)) (length as))"
proof (induction as arbitrary: l index)
  case Nil
  then show ?case by (subst op_subscript.simps) (simp add: Let_def)
next
  case (Cons a as)
  show ?case
  proof (cases "sint index = 0")
    case True
    then have "sint (index - 1) = - 1" using sint_dec [of index] by simp
    with True show ?thesis by (subst op_subscript.simps) (simp add: Let_def)
  next
    case False
    with Cons.prems have pos: "0 < sint index" by simp
    then have dec: "sint (index - 1) = sint index - 1" using sint_dec [of index] by simp
    from pos obtain k where k: "nat (sint index) = Suc k" "nat (sint index - 1) = k"
      by (cases "nat (sint index)") auto
    have "op_subscript s (Link a) (index - 1)
        = slot_at (Link a) as (min (nat (sint (index - 1))) (length as))"
      using Cons.prems pos dec by (intro Cons.IH) simp_all
    then show ?thesis
      using Cons.prems pos dec k
      by (subst op_subscript.simps) (simp add: Let_def slot_at_Suc_Cons)
  qed
qed

lemma op_subscript_low:
  "sint index \<le> 0 \<Longrightarrow> - (2 ^ 31) < sint index \<Longrightarrow> op_subscript s l index = l"
  using sint_dec [of index] by (subst op_subscript.simps) (simp add: Let_def)

lemma item_of_last_slot: "chain s (item_of s l) as \<Longrightarrow> item_of s (last_slot l as) = None"
  by (induction as arbitrary: l) simp_all

lemma item_of_slot_at:
  "chain s (item_of s l) as \<Longrightarrow> k < length as \<Longrightarrow> item_of s (slot_at l as k) = Some (as ! k)"
proof (induction as arbitrary: l k)
  case Nil
  then show ?case by simp
next
  case (Cons a as)
  show ?case
  proof (cases k)
    case 0
    with Cons.prems show ?thesis by simp
  next
    case (Suc j)
    with Cons.prems have "item_of s (slot_at (Link a) as j) = Some (as ! j)"
      by (intro Cons.IH) simp_all
    with Suc show ?thesis by (simp add: slot_at_Suc_Cons)
  qed
qed

lemma op_subscript_const_low:
  "sint index \<le> 0 \<Longrightarrow> - (2 ^ 31) < sint index \<Longrightarrow> op_subscript_const s l index = l"
  using sint_dec [of index] by (subst op_subscript_const.simps) (simp add: Let_def)


lemma chain_append_at_last:
  assumes "chain s (item_of s l) as" and "chain s q bs"
    and "set as \<inter> set bs = {}" and "\<And>b. b \<in> set bs \<Longrightarrow> l \<noteq> Link b"
  shows "chain (set_item (last_slot l as) q s) (item_of (set_item (last_slot l as) q s) l) (as @ bs)"
  using assms
proof (induction as arbitrary: l)
  case Nil
  then have "chain (set_item l q s) q bs"
    by (subst chain_set_item) auto
  then show ?case by simp
next
  case (Cons a as)
  let ?e = "last_slot (Link a) as"
  let ?s' = "set_item ?e q s"
  from Cons.prems(1) have head: "item_of s l = Some a" and rest: "chain s (item_of s (Link a)) as"
    by simp_all
  have "chain ?s' (item_of ?s' (Link a)) (as @ bs)"
    using rest Cons.prems(2,3) by (intro Cons.IH) auto
  moreover have "?e \<noteq> l"
  proof
    assume eq: "?e = l"
    show False
    proof (cases as)
      case Nil
      with eq have "l = Link a" by simp
      with slot_outside_chain [OF Cons.prems(1), of a] show False by simp
    next
      case (Cons b bs')
      then have "?e = Link (last as)"
        by (simp add: last_slot_def slot_at_def last_conv_nth)
      moreover have "last as \<in> set (a # as)" using Cons by simp
      ultimately show False
        using slot_outside_chain [OF Cons.prems(1), of "last as"] eq by simp
    qed
  qed
  then have "item_of ?s' l = Some a"
    using head by (simp add: item_of_set_item_other)
  ultimately show ?case by simp
qed

lemma last_slot_cases: "last_slot l as = (if as = [] then l else Link (last as))"
  by (cases as) (simp_all add: last_slot_def slot_at_def last_conv_nth)

lemma last_slot_append: "last_slot l (as @ [k]) = Link k"
  by (simp add: last_slot_cases)

lemma links_after_append:
  assumes "chain s (item_of s l) as" and "k \<notin> set as" and "l \<noteq> Link k"
  shows "links (set_item (last_slot l as) q s) k = links s k"
proof -
  have "last_slot l as \<noteq> Link k"
    using assms by (auto simp: last_slot_cases split: if_splits)
  then show ?thesis by (rule links_set_item)
qed

lemma appends_agree:
  assumes "chain s (item_of s l) as" and "endOfList ap = last_slot l as"
    and "\<And>k. k \<in> set ks \<Longrightarrow> links s k = None"
    and "distinct ks" and "set ks \<inter> set as = {}"
    and "\<And>k. k \<in> set ks \<Longrightarrow> l \<noteq> Link k"
  shows "\<exists>ap' s'. Appender_append_all ap ks s = Inr (ap', s') \<and>
           append_all l ks s = Some s' \<and>
           chain s' (item_of s' l) (as @ ks) \<and>
           endOfList ap' = last_slot l (as @ ks)"
  using assms
proof (induction ks arbitrary: s as ap)
  case Nil
  then show ?case by simp
next
  case (Cons k ks)
  let ?s1 = "set_item (last_slot l as) (Some k) s"
  let ?ap1 = "ap\<lparr>endOfList := Link k\<rparr>"
  have step_A: "Appender_append ap (Some k) s = Inr (?ap1, ?s1)"
    using Cons.prems(2) by (simp add: Appender_append_def)
  have step_a: "append_item l (Some k) s = Some ?s1"
    using Cons.prems(1) by (simp add: append_item_def getLast_chain)
  have single: "chain s (Some k) [k]"
    using Cons.prems(3) [of k] by simp
  have c1: "chain ?s1 (item_of ?s1 l) (as @ [k])"
    using Cons.prems(1) single Cons.prems(5,6) by (intro chain_append_at_last) auto
  have e1: "endOfList ?ap1 = last_slot l (as @ [k])"
    by (simp add: last_slot_append)
  have n1: "links ?s1 k' = None" if "k' \<in> set ks" for k'
  proof -
    have "links ?s1 k' = links s k'"
      using Cons.prems(1,5,6) that by (intro links_after_append) auto
    with Cons.prems(3) [of k'] that show ?thesis by simp
  qed
  have "\<exists>ap' s'. Appender_append_all ?ap1 ks ?s1 = Inr (ap', s') \<and>
           append_all l ks ?s1 = Some s' \<and>
           chain s' (item_of s' l) ((as @ [k]) @ ks) \<and>
           endOfList ap' = last_slot l ((as @ [k]) @ ks)"
    using c1 e1 n1 Cons.prems(4,5,6) by (intro Cons.IH) auto
  then show ?case using step_A step_a by simp
qed


text \<open>
  What \<^verbatim>\<open>removeNext\<close> and \<^verbatim>\<open>remove\<close> do on every chain: an empty handle is left alone;
  on a non-empty one the head is returned with its link field cleared and the handle is
  left empty; removing a node that is not in the chain changes nothing.
\<close>

lemma removeNext_empty: "item_of s l = None \<Longrightarrow> removeNext l s = Inr (None, s)"
  by (simp add: removeNext_def)

lemma removeNext_chain:
  assumes "chain s (item_of s l) (a # as)"
  shows "\<exists>s'. removeNext l s = Inr (Some a, s') \<and> item_of s' l = None \<and> links s' a = None"
proof -
  let ?s1 = "set_item (Link a) None s"
  let ?s2 = "set_item l (links ?s1 a) ?s1"
  from assms have head: "item_of s l = Some a" by simp
  have la: "l \<noteq> Link a" using slot_outside_chain [OF assms, of a] by simp
  then have again: "item_of ?s1 l = Some a"
    using head by (simp add: item_of_set_item_other del: set_item.simps)
  have run: "removeNext l s = Inr (Some a, ?s2)"
    using head again by (simp add: removeNext_def Let_def del: set_item.simps)
  have cleared: "links ?s1 a = None" by simp
  have "item_of ?s2 l = None"
    unfolding cleared by (rule item_of_set_item_same)
  moreover have "links ?s2 a = None"
    using la cleared by (simp add: links_set_item del: set_item.simps)
  ultimately show ?thesis using run by blast
qed

lemma remove_absent:
  assumes "chain s (item_of s l) as" and "\<And>a. a \<in> set as \<Longrightarrow> x \<noteq> Some a"
  shows "remove l x s = Some (Inr s)"
  using findPointerTo_absent [OF assms] by (simp add: remove_def)


section \<open>Removing the head: the order of the two assignments\<close>

text \<open>
  C1. The claim: on a non-empty chain \<^verbatim>\<open>removeNext\<close> returns the referenced node, clears
  its link field and re-links the handle to what used to be that node's next, so that the
  rest of the chain stays reachable. The code clears the link field of the old item before
  it reads the new value of \<^verbatim>\<open>item\<close> from it. On the list 1, 2, 3 the call returns node 1
  with its link cleared, but the handle is left empty: the nodes 2 and 3 are no longer
  reachable from it.
\<close>

theorem removeNext_drops_rest_of_chain:
  "(case removeNext (Root 0) list123 of
      Inl e \<Rightarrow> False
    | Inr (r, s') \<Rightarrow>
        chain list123 (get list123 (Root 0)) [1, 2, 3] \<and>
        r = Some 1 \<and> links s' 1 = None \<and>
        get s' (Root 0) = None \<and> \<not> chain s' (get s' (Root 0)) [2, 3])"
  by (simp add: removeNext_def list123_def get_def)

text \<open>
  C2. The claim: \<^verbatim>\<open>insertNext (node)\<close> followed by \<^verbatim>\<open>removeNext()\<close> on the same handle
  returns that node and leaves the chain as it was before the insertion. On the list
  1, 2, 3 with the detached node 7, the insertion gives 7, 1, 2, 3 and the removal returns
  node 7, but the handle is then empty instead of heading 1, 2, 3.
\<close>

theorem insertNext_removeNext_loses_chain:
  "(case insertNext (Root 0) (Some 7) list123 of
      Inl e \<Rightarrow> False
    | Inr s1 \<Rightarrow>
        chain list123 (get list123 (Root 0)) [1, 2, 3] \<and>
        chain s1 (get s1 (Root 0)) [7, 1, 2, 3] \<and>
        (case removeNext (Root 0) s1 of
           Inl e \<Rightarrow> False
         | Inr (r, s2) \<Rightarrow>
             r = Some 7 \<and> chain s2 (get s2 (Root 0)) [] \<and>
             \<not> chain s2 (get s2 (Root 0)) [1, 2, 3]))"
  by (simp add: insertNext_def jassert_def removeNext_def list123_def get_def)

text \<open>
  C3. The claim: on the chain A, B, C the call \<^verbatim>\<open>remove (B)\<close> leaves the chain A, C.
  On the list 1, 2, 3 the call \<^verbatim>\<open>remove (2)\<close> finds the link field of node 1 and calls
  \<^verbatim>\<open>removeNext\<close> on it: node 2 is unlinked and its link field is empty, but the chain
  left is 1 alone, and node 3 is not contained any more.
\<close>

theorem remove_middle_drops_tail:
  "(case remove (Root 0) (Some 2) list123 of
      Some (Inr s') \<Rightarrow>
        chain list123 (get list123 (Root 0)) [1, 2, 3] \<and>
        chain s' (get s' (Root 0)) [1] \<and> \<not> chain s' (get s' (Root 0)) [1, 3] \<and>
        contains s' (Root 0) (Some 2) = Some False \<and>
        contains s' (Root 0) (Some 3) = Some False \<and>
        links s' 2 = None
    | _ \<Rightarrow> False)"
  by (simp add: remove_def findPointerTo.simps removeNext_def list123_def get_def
      contains_def contains_loop.simps)


section \<open>Copying a list\<close>

text \<open>
  C4. The claim: \<^verbatim>\<open>addCopyOfList\<close> appends the copies at the end of the destination
  chain, so the result is the old destination contents followed by the copies. The loop
  starts inserting at the handle itself, not at its last slot. With the destination 5 and
  the source 1, 2 the fresh copies 8 and 9 (of equal payload, in source order, and the
  source left as it was) come before node 5.
\<close>

theorem addCopyOfList_puts_copies_first:
  "(case addCopyOfList (Root 1) (Root 0) two_lists of
      Some (Inr s') \<Rightarrow>
        chain two_lists (get two_lists (Root 1)) [5] \<and>
        chain two_lists (get two_lists (Root 0)) [1, 2] \<and>
        chain s' (get s' (Root 1)) [8, 9, 5] \<and>
        \<not> chain s' (get s' (Root 1)) [5, 8, 9] \<and>
        payload s' 8 = payload two_lists 1 \<and> payload s' 9 = payload two_lists 2 \<and>
        chain s' (get s' (Root 0)) [1, 2]
    | _ \<Rightarrow> False)"
  by (simp add: addCopyOfList_def addCopyOfList_loop.simps new_copy_def insertNext_def
      jassert_def two_lists_def get_def)


section \<open>Indexing\<close>

text \<open>
  C7. For a chain hanging off the handle and an index that is not negative:
  if the index is at least the length of the chain, \<^verbatim>\<open>operator[]\<close> returns the slot after
  the last node, which is empty, and does not fail; if the index is less than the length,
  it returns the slot at that 0-based position, the one that references the node of that
  position. In particular index 5 on an empty handle returns the handle itself, which is
  the empty terminal slot.
\<close>

theorem op_subscript_clamps_to_end:
  assumes "chain s (item_of s l) as" and "0 \<le> sint index"
  shows "(length as \<le> nat (sint index) \<longrightarrow>
            op_subscript s l index = last_slot l as \<and> item_of s (op_subscript s l index) = None) \<and>
         (nat (sint index) < length as \<longrightarrow>
            op_subscript s l index = slot_at l as (nat (sint index)) \<and>
            item_of s (op_subscript s l index) = Some (as ! nat (sint index))) \<and>
         (as = [] \<longrightarrow> op_subscript s l 5 = l \<and> item_of s (op_subscript s l 5) = None)"
proof (intro conjI impI)
  assume "length as \<le> nat (sint index)"
  then show "op_subscript s l index = last_slot l as"
    using assms by (simp add: op_subscript_chain last_slot_def min_def)
  then show "item_of s (op_subscript s l index) = None"
    using assms(1) by (simp add: item_of_last_slot)
next
  assume "nat (sint index) < length as"
  then show *: "op_subscript s l index = slot_at l as (nat (sint index))"
    using assms by (simp add: op_subscript_chain min_def)
  show "item_of s (op_subscript s l index) = Some (as ! nat (sint index))"
    unfolding * using assms(1) \<open>nat (sint index) < length as\<close> by (rule item_of_slot_at)
next
  assume "as = []"
  with assms(1) have "op_subscript s l 5 = slot_at l as (min (nat (sint (5 :: 32 word))) (length as))"
    by (intro op_subscript_chain) simp_all
  with \<open>as = []\<close> show **: "op_subscript s l 5 = l" by simp
  show "item_of s (op_subscript s l 5) = None"
    unfolding ** using assms(1) \<open>as = []\<close> by simp
qed

theorem op_subscript_clamps_to_end_witness:
  "chain list123 (item_of list123 (Root 0)) [1, 2, 3] \<and>
   op_subscript list123 (Root 0) 3 = Link 3 \<and>
   op_subscript list123 (Root 0) 1000 = Link 3 \<and> item_of list123 (Link 3) = None \<and>
   op_subscript list123 (Root 0) 2 = Link 2 \<and> item_of list123 (Link 2) = Some 3 \<and>
   op_subscript list123 (Root 4) 5 = Root 4 \<and> item_of list123 (Root 4) = None"
proof -
  have c: "chain list123 (item_of list123 (Root 0)) [1, 2, 3]"
    by (simp add: list123_def)
  have e: "chain list123 (item_of list123 (Root 4)) []"
    by (simp add: list123_def)
  have "op_subscript list123 (Root 0) 3 = Link 3"
    using op_subscript_clamps_to_end [OF c, of 3] by (simp add: last_slot_def slot_at_def)
  moreover have "op_subscript list123 (Root 0) 1000 = Link 3 \<and> item_of list123 (Link 3) = None"
    using op_subscript_clamps_to_end [OF c, of 1000] by (auto simp: last_slot_def slot_at_def)
  moreover have "op_subscript list123 (Root 0) 2 = Link 2 \<and> item_of list123 (Link 2) = Some 3"
    using op_subscript_clamps_to_end [OF c, of 2] by (auto simp: last_slot_def slot_at_def)
  moreover have "op_subscript list123 (Root 4) 5 = Root 4 \<and> item_of list123 (Root 4) = None"
    using op_subscript_clamps_to_end [OF e, of 5] by auto
  ultimately show ?thesis using c by simp
qed

text \<open>
  C10. The claim: for every index less than or equal to 0, negative ones included,
  \<^verbatim>\<open>operator[]\<close> (in both its variants) returns the handle itself, as index 0 does. The
  loop condition decrements the 32-bit index before it tests it, so at the least index,
  \<open>- 2 ^ 31\<close>, the decrement wraps around to \<open>2 ^ 31 - 1\<close> and the loop walks to the
  end of the list 1, 2, 3.
\<close>

theorem op_subscript_least_index_counterexample:
  "sint (- 2147483648 :: 32 word) \<le> 0 \<and>
   op_subscript list123 (Root 0) (- 2147483648) = Link 3 \<and>
   op_subscript list123 (Root 0) (- 2147483648) \<noteq> Root 0 \<and>
   op_subscript list123 (Root 0) 0 = Root 0"
  by (simp add: list123_def op_subscript.simps)

text \<open>
  C10, amended. For every index less than or equal to 0 and greater than \<open>- 2 ^ 31\<close>, both
  variants of \<^verbatim>\<open>operator[]\<close> return the handle itself on every store, the result of
  index 0.
\<close>

theorem op_subscript_nonpositive_index:
  assumes "sint index \<le> 0" and "- (2 ^ 31) < sint index"
  shows "op_subscript s l index = l \<and> op_subscript_const s l index = l \<and>
         op_subscript s l index = op_subscript s l 0"
  using assms by (simp add: op_subscript_low op_subscript_const_low)

theorem op_subscript_nonpositive_index_witness:
  "sint (- 3 :: 32 word) \<le> 0 \<and> - (2 ^ 31) < sint (- 3 :: 32 word) \<and>
   op_subscript list123 (Root 0) (- 3) = Root 0 \<and>
   op_subscript_const list123 (Root 0) (- 3) = Root 0"
proof -
  have a: "sint (- 3 :: 32 word) \<le> 0" and b: "- (2 ^ 31) < sint (- 3 :: 32 word)" by simp_all
  from op_subscript_nonpositive_index [OF a b, where s = list123 and l = "Root 0"] a b
  show ?thesis by simp
qed


section \<open>Queries on an empty handle\<close>

text \<open>
  C8. On a handle that references no node, \<^verbatim>\<open>size()\<close> returns 0, \<^verbatim>\<open>get()\<close> returns the
  null pointer and \<^verbatim>\<open>contains\<close> returns false for every node; each of them returns, and
  none fails.
\<close>

theorem empty_handle_queries:
  assumes "item_of s l = None"
  shows "size_of s l = Some 0 \<and> get s l = None \<and> (\<forall>x. contains s l x = Some False)"
  using assms
  by (simp add: size_of_def get_def contains_def size_loop.simps contains_loop.simps)

theorem empty_handle_queries_witness:
  "item_of list123 (Root 4) = None \<and> size_of list123 (Root 4) = Some 0 \<and>
   get list123 (Root 4) = None \<and> contains list123 (Root 4) (Some 2) = Some False"
proof -
  have e: "item_of list123 (Root 4) = None" by (simp add: list123_def)
  from empty_handle_queries [OF e] e show ?thesis by simp
qed


section \<open>Replacing the head\<close>

text \<open>
  C5. The claim: \<^verbatim>\<open>replaceNext\<close> on an empty handle signals a PrecondViolation instead
  of proceeding. The two assertions of \<^verbatim>\<open>replaceNext\<close> test the new item only. On the
  empty root slot 4 with the detached node 7 both hold, the body runs, and
  \<^verbatim>\<open>oldItem->nextListItem\<close> reads through the null old item.
\<close>

theorem replaceNext_empty_handle_counterexample:
  "item_of list123 (Root 4) = None \<and>
   replaceNext (Root 4) (Some 7) list123 = Inl NullDereference \<and>
   replaceNext (Root 4) (Some 7) list123 \<noteq> Inl PrecondViolation"
  by (simp add: replaceNext_def jassert_def list123_def)

text \<open>
  C5, amended. On an empty handle, with a new node whose link field is empty, no assertion
  of \<^verbatim>\<open>replaceNext\<close> fails: the call goes on to read the link field of the null old
  item. On a handle heading a chain whose first node is \<open>a\<close>, with a new node \<open>n\<close> whose
  link field is empty, the call returns \<open>a\<close>, the handle references \<open>n\<close>, the link field
  of \<open>n\<close> holds what the link field of \<open>a\<close> held, and the link field of \<open>a\<close> is empty;
  when \<open>n\<close> is not one of the nodes after \<open>a\<close>, the chain is \<open>n\<close> followed by them.
\<close>

theorem replaceNext_splices:
  "(item_of s l = None \<and> links s n = None \<longrightarrow>
      replaceNext l (Some n) s = Inl NullDereference) \<and>
   (chain s (item_of s l) (a # as) \<and> links s n = None \<longrightarrow>
      (\<exists>s'. replaceNext l (Some n) s = Inr (Some a, s') \<and>
            item_of s' l = Some n \<and> links s' n = links s a \<and> links s' a = None \<and>
            (n \<notin> set as \<longrightarrow> chain s' (item_of s' l) (n # as))))"
proof (intro conjI impI)
  assume "item_of s l = None \<and> links s n = None"
  then show "replaceNext l (Some n) s = Inl NullDereference"
    by (simp add: replaceNext_def jassert_def Let_def)
next
  assume h: "chain s (item_of s l) (a # as) \<and> links s n = None"
  then have head: "item_of s l = Some a" and rest: "chain s (links s a) as"
    and free: "links s n = None" by simp_all
  have la: "l \<noteq> Link a" using slot_outside_chain [of s l "a # as" a] h by simp
  have ln: "l \<noteq> Link n" using head free by auto
  let ?s1 = "set_item l (Some n) s"
  let ?s2 = "set_item (Link n) (links ?s1 a) ?s1"
  let ?s3 = "set_item (Link a) None ?s2"
  have run: "replaceNext l (Some n) s = Inr (Some a, ?s3)"
    using head free by (simp add: replaceNext_def jassert_def Let_def)
  have old: "links ?s1 a = links s a" using la by (rule links_set_item)
  have i3: "item_of ?s3 l = Some n"
    using la ln by (simp add: item_of_set_item_other del: set_item.simps)
  have n3: "links ?s3 n = links s a"
  proof (cases "n = a")
    case True
    with free show ?thesis by simp
  next
    case False
    then show ?thesis using old by simp
  qed
  have a3: "links ?s3 a = None" by simp
  have c3: "chain ?s3 (item_of ?s3 l) (n # as)" if "n \<notin> set as"
  proof -
    have "a \<notin> set as" using rest by (rule chain_not_in_tail)
    have "\<And>x. l = Link x \<Longrightarrow> x \<notin> set as"
      using slot_outside_chain [of s l "a # as"] h by auto
    then have "chain ?s1 (links s a) as"
      using rest by (subst chain_set_item) auto
    then have "chain ?s2 (links s a) as"
      using that by (subst chain_set_item) auto
    then have "chain ?s3 (links s a) as"
      using \<open>a \<notin> set as\<close> by (subst chain_set_item) auto
    with i3 n3 show ?thesis by (simp del: set_item.simps)
  qed
  from run i3 n3 a3 c3
  show "\<exists>s'. replaceNext l (Some n) s = Inr (Some a, s') \<and>
            item_of s' l = Some n \<and> links s' n = links s a \<and> links s' a = None \<and>
            (n \<notin> set as \<longrightarrow> chain s' (item_of s' l) (n # as))"
    by blast
qed

theorem replaceNext_splices_witness:
  "chain list123 (item_of list123 (Root 0)) [1, 2, 3] \<and> links list123 7 = None \<and>
   (\<exists>s'. replaceNext (Root 0) (Some 7) list123 = Inr (Some 1, s') \<and>
         item_of s' (Root 0) = Some 7 \<and> links s' 7 = Some 2 \<and> links s' 1 = None \<and>
         chain s' (item_of s' (Root 0)) [7, 2, 3]) \<and>
   item_of list123 (Root 4) = None \<and>
   replaceNext (Root 4) (Some 7) list123 = Inl NullDereference"
proof -
  have c: "chain list123 (item_of list123 (Root 0)) [1, 2, 3]"
    and f: "links list123 7 = None" and e: "item_of list123 (Root 4) = None"
    and l1: "links list123 1 = Some 2"
    by (simp_all add: list123_def)
  have "\<exists>s'. replaceNext (Root 0) (Some 7) list123 = Inr (Some 1, s') \<and>
         item_of s' (Root 0) = Some 7 \<and> links s' 7 = links list123 1 \<and> links s' 1 = None \<and>
         (7 \<notin> set [2, 3 :: nat] \<longrightarrow> chain s' (item_of s' (Root 0)) [7, 2, 3])"
    using replaceNext_splices [where s = list123 and l = "Root 0" and n = 7 and a = 1
        and as = "[2, 3]"] c f by blast
  then have "\<exists>s'. replaceNext (Root 0) (Some 7) list123 = Inr (Some 1, s') \<and>
         item_of s' (Root 0) = Some 7 \<and> links s' 7 = Some 2 \<and> links s' 1 = None \<and>
         chain s' (item_of s' (Root 0)) [7, 2, 3]"
    using l1 by simp
  moreover have "replaceNext (Root 4) (Some 7) list123 = Inl NullDereference"
    using replaceNext_splices [where s = list123 and l = "Root 4" and n = 7] e f by blast
  ultimately show ?thesis using c f e by blast
qed


section \<open>Appending\<close>

text \<open>
  C6. Let a chain of \<open>n\<close> nodes \<open>as\<close> hang off the handle \<open>l\<close>, and let \<open>ks\<close> be \<open>k\<close>
  nodes with empty link fields that are detached, as the data model requires of nodes to be
  linked: pairwise different, none of them in the chain, and none of them holding the
  handle. An Appender constructed over the terminal slot of the chain is accepted, and
  appending \<open>ks\<close> through it returns; the handle then heads the chain \<open>as @ ks\<close>, whose
  \<^verbatim>\<open>size()\<close> is \<open>n + k\<close>, and the store is the very store that \<open>k\<close> sequential calls of
  \<^verbatim>\<open>append\<close> on the handle produce. Constructing an Appender over a slot that references
  a node is a PrecondViolation.
\<close>

theorem Appender_appends_like_append:
  assumes "chain s (item_of s l) as"
    and "\<forall>k \<in> set ks. links s k = None \<and> l \<noteq> Link k"
    and "distinct ks" and "set ks \<inter> set as = {}"
  shows "(\<exists>ap ap' s'.
            Appender (last_slot l as) s = Inr ap \<and>
            Appender_append_all ap ks s = Inr (ap', s') \<and>
            chain s' (item_of s' l) (as @ ks) \<and>
            size_of s' l = Some (of_nat (length as + length ks)) \<and>
            append_all l ks s = Some s') \<and>
         (\<forall>e. item_of s e \<noteq> None \<longrightarrow> Appender e s = Inl PrecondViolation)"
proof
  let ?ap = "\<lparr>endOfList = last_slot l as\<rparr>"
  have A: "Appender (last_slot l as) s = Inr ?ap"
    using assms(1) by (simp add: Appender_def jassert_def item_of_last_slot)
  obtain ap' s' where r: "Appender_append_all ?ap ks s = Inr (ap', s')"
      "append_all l ks s = Some s'" "chain s' (item_of s' l) (as @ ks)"
    using appends_agree [OF assms(1), of ?ap ks] assms(2,3,4) by auto
  from r(3) have "size_of s' l = Some (of_nat (length as + length ks))"
    by (simp add: size_of_def size_loop_chain)
  with A r show "\<exists>ap ap' s'.
            Appender (last_slot l as) s = Inr ap \<and>
            Appender_append_all ap ks s = Inr (ap', s') \<and>
            chain s' (item_of s' l) (as @ ks) \<and>
            size_of s' l = Some (of_nat (length as + length ks)) \<and>
            append_all l ks s = Some s'"
    by blast
  show "\<forall>e. item_of s e \<noteq> None \<longrightarrow> Appender e s = Inl PrecondViolation"
    by (simp add: Appender_def jassert_def)
qed

theorem Appender_appends_like_append_witness:
  "chain list123 (item_of list123 (Root 0)) [1, 2, 3] \<and>
   (\<exists>ap ap' s'.
      Appender (Link 3) list123 = Inr ap \<and>
      Appender_append_all ap [7, 5] list123 = Inr (ap', s') \<and>
      chain s' (item_of s' (Root 0)) [1, 2, 3, 7, 5] \<and>
      size_of s' (Root 0) = Some 5 \<and>
      append_all (Root 0) [7, 5] list123 = Some s') \<and>
   Appender (Root 0) list123 = Inl PrecondViolation"
proof -
  have c: "chain list123 (item_of list123 (Root 0)) [1, 2, 3]"
    by (simp add: list123_def)
  have k: "\<forall>k \<in> set [7, 5]. links list123 k = None \<and> Root 0 \<noteq> Link k"
    by (simp add: list123_def)
  have d: "distinct [7, 5 :: nat]" and i: "set [7, 5] \<inter> set [1, 2, 3 :: nat] = {}"
    by simp_all
  have ne: "item_of list123 (Root 0) \<noteq> None" by (simp add: list123_def)
  have ls: "last_slot (Root 0) [1, 2, 3] = Link 3" by (simp add: last_slot_def slot_at_def)
  note T = Appender_appends_like_append [OF c k d i]
  from T have "\<exists>ap ap' s'.
      Appender (last_slot (Root 0) [1, 2, 3]) list123 = Inr ap \<and>
      Appender_append_all ap [7, 5] list123 = Inr (ap', s') \<and>
      chain s' (item_of s' (Root 0)) ([1, 2, 3] @ [7, 5]) \<and>
      size_of s' (Root 0) = Some (of_nat (length [1, 2, 3 :: nat] + length [7, 5 :: nat])) \<and>
      append_all (Root 0) [7, 5] list123 = Some s'"
    by (rule conjunct1)
  then have "\<exists>ap ap' s'.
      Appender (Link 3) list123 = Inr ap \<and>
      Appender_append_all ap [7, 5] list123 = Inr (ap', s') \<and>
      chain s' (item_of s' (Root 0)) [1, 2, 3, 7, 5] \<and>
      size_of s' (Root 0) = Some 5 \<and>
      append_all (Root 0) [7, 5] list123 = Some s'"
    unfolding ls by simp
  moreover from T ne have "Appender (Root 0) list123 = Inl PrecondViolation" by blast
  ultimately show ?thesis using c by blast
qed

text \<open>
  C9. The claim: for every chain and every node, \<^verbatim>\<open>append\<close> and \<^verbatim>\<open>Appender::append\<close>
  link the node, with any chain hanging off its link field, at the terminal slot, so that
  the size grows by the size of the chain starting at the node. \<^verbatim>\<open>Appender::append\<close>
  writes to the slot it has cached and then caches the link field of the node it was
  given. An Appender is made over the terminal slot of the list 5 and node 1, which has
  node 2 hanging off it, is appended: the list is 5, 1, 2 and the cached slot is the link
  field of node 1, which is not the terminal slot. Appending the detached node 7 through
  the same Appender then overwrites that link field: the list is 5, 1, 7, node 2 is cut
  off, and the size is still 3, not 3 plus 1.
\<close>

theorem Appender_append_after_linked_node_counterexample:
  "(case Appender (Link 5) two_lists of
      Inl e \<Rightarrow> False
    | Inr ap \<Rightarrow>
        (case Appender_append ap (Some 1) two_lists of
           Inl e \<Rightarrow> False
         | Inr (ap1, s1) \<Rightarrow>
             chain s1 (get s1 (Root 1)) [5, 1, 2] \<and>
             endOfList ap1 = Link 1 \<and>
             size_of s1 (Root 1) = Some 3 \<and> size_loop s1 (Some 7) 0 = Some 1 \<and>
             (case Appender_append ap1 (Some 7) s1 of
                Inl e \<Rightarrow> False
              | Inr (ap2, s2) \<Rightarrow>
                  chain s2 (get s2 (Root 1)) [5, 1, 7] \<and>
                  \<not> chain s2 (get s2 (Root 1)) [5, 1, 2, 7] \<and>
                  size_of s2 (Root 1) = Some 3 \<and>
                  size_of s2 (Root 1) \<noteq> Some (3 + 1))))"
  by (simp add: Appender_def jassert_def Appender_append_def two_lists_def get_def
      size_of_def size_loop.simps)

text \<open>
  C9, amended. Neither \<^verbatim>\<open>append\<close> nor \<^verbatim>\<open>Appender::append\<close> makes any assertion about
  the new node: \<^verbatim>\<open>Appender::append\<close> returns normally on every Appender and every node,
  having written the node to the cached slot and cached the node's link
  field. Let a chain \<open>as\<close> hang off the handle \<open>l\<close>, and let \<open>n\<close> be a node with the chain
  \<open>bs\<close> starting at it (\<open>bs\<close> is \<open>n\<close> alone or \<open>n\<close> with the nodes hanging off its link
  field), apart from the first chain and not holding the handle, as the data model
  requires. Then \<^verbatim>\<open>append\<close> on the handle, and \<^verbatim>\<open>Appender::append\<close> on an Appender whose
  cached slot is the terminal slot of the chain, return with the same store, whatever the
  link field of \<open>n\<close> holds. The handle then heads \<open>as @ bs\<close>, and its \<^verbatim>\<open>size()\<close> is the
  old size plus the size of the chain starting at \<open>n\<close>.
\<close>

theorem append_without_assertion:
  assumes "chain s (item_of s l) as" and "chain s (Some n) bs"
    and "set as \<inter> set bs = {}" and "\<forall>b \<in> set bs. l \<noteq> Link b"
  shows "(\<exists>s' ap so sb.
           append_item l (Some n) s = Some s' \<and>
           Appender (last_slot l as) s = Inr ap \<and>
           Appender_append ap (Some n) s = Inr (ap\<lparr>endOfList := Link n\<rparr>, s') \<and>
           chain s' (item_of s' l) (as @ bs) \<and>
           size_of s l = Some so \<and> size_loop s (Some n) 0 = Some sb \<and>
           size_of s' l = Some (so + sb)) \<and>
         (\<forall>c m. Appender_append c (Some m) s
            = Inr (c\<lparr>endOfList := Link m\<rparr>, set_item (endOfList c) (Some m) s))"
proof (intro conjI allI)
  let ?s' = "set_item (last_slot l as) (Some n) s"
  let ?ap = "\<lparr>endOfList = last_slot l as\<rparr>"
  have a: "append_item l (Some n) s = Some ?s'"
    using assms(1) by (simp add: append_item_def getLast_chain)
  have A: "Appender (last_slot l as) s = Inr ?ap"
    using assms(1) by (simp add: Appender_def jassert_def item_of_last_slot)
  have Aa: "Appender_append ?ap (Some n) s = Inr (?ap\<lparr>endOfList := Link n\<rparr>, ?s')"
    by (simp add: Appender_append_def)
  have c: "chain ?s' (item_of ?s' l) (as @ bs)"
    using assms by (intro chain_append_at_last) auto
  have so: "size_of s l = Some (of_nat (length as))"
    using assms(1) by (simp add: size_of_def size_loop_chain)
  have sb: "size_loop s (Some n) 0 = Some (of_nat (length bs))"
    using assms(2) by (simp add: size_loop_chain)
  have s': "size_of ?s' l = Some (of_nat (length as) + of_nat (length bs))"
    using c by (simp add: size_of_def size_loop_chain)
  from a A Aa c so sb s'
  show "\<exists>s' ap so sb.
           append_item l (Some n) s = Some s' \<and>
           Appender (last_slot l as) s = Inr ap \<and>
           Appender_append ap (Some n) s = Inr (ap\<lparr>endOfList := Link n\<rparr>, s') \<and>
           chain s' (item_of s' l) (as @ bs) \<and>
           size_of s l = Some so \<and> size_loop s (Some n) 0 = Some sb \<and>
           size_of s' l = Some (so + sb)"
    by blast
next
  fix c :: appender and m :: addr
  show "Appender_append c (Some m) s
      = Inr (c\<lparr>endOfList := Link m\<rparr>, set_item (endOfList c) (Some m) s)"
    by (simp add: Appender_append_def)
qed

theorem append_without_assertion_witness:
  "chain two_lists (item_of two_lists (Root 1)) [5] \<and>
   chain two_lists (Some 1) [1, 2] \<and> links two_lists 1 = Some 2 \<and>
   (\<exists>s'. append_item (Root 1) (Some 1) two_lists = Some s' \<and>
         Appender_append \<lparr>endOfList = Link 5\<rparr> (Some 1) two_lists
           = Inr (\<lparr>endOfList = Link 1\<rparr>, s') \<and>
         chain s' (item_of s' (Root 1)) [5, 1, 2] \<and>
         size_of two_lists (Root 1) = Some 1 \<and> size_loop two_lists (Some 1) 0 = Some 2 \<and>
         size_of s' (Root 1) = Some 3)"
proof -
  have c: "chain two_lists (item_of two_lists (Root 1)) [5]"
    and b: "chain two_lists (Some 1) [1, 2]" and l1: "links two_lists 1 = Some 2"
    by (simp_all add: two_lists_def)
  have i: "set [5] \<inter> set [1, 2 :: nat] = {}" and o: "\<forall>b \<in> set [1, 2]. Root 1 \<noteq> Link b"
    by simp_all
  have ls: "last_slot (Root 1) [5] = Link 5" by (simp add: last_slot_def slot_at_def)
  have so: "size_of two_lists (Root 1) = Some 1" and sb: "size_loop two_lists (Some 1) 0 = Some 2"
    by (simp_all add: size_of_def size_loop.simps two_lists_def)
  have A: "Appender (Link 5) two_lists = Inr \<lparr>endOfList = Link 5\<rparr>"
    by (simp add: Appender_def jassert_def two_lists_def)
  from append_without_assertion [OF c b i o, THEN conjunct1]
  obtain s' ap so' sb' where r:
    "append_item (Root 1) (Some 1) two_lists = Some s'"
    "Appender (last_slot (Root 1) [5]) two_lists = Inr ap"
    "Appender_append ap (Some 1) two_lists = Inr (ap\<lparr>endOfList := Link 1\<rparr>, s')"
    "chain s' (item_of s' (Root 1)) ([5] @ [1, 2])"
    "size_of two_lists (Root 1) = Some so'" "size_loop two_lists (Some 1) 0 = Some sb'"
    "size_of s' (Root 1) = Some (so' + sb')"
    by blast
  from r(2) A ls have ap: "ap = \<lparr>endOfList = Link 5\<rparr>" by simp
  from r(5,6,7) so sb have "size_of s' (Root 1) = Some 3" by simp
  with r(1,3,4) ap so sb c b l1 show ?thesis by simp
qed

end
